theory Spec2Isabelle
  imports Main
begin

section \<open>JSON values as the JavaScript runtime handles them\<close>

text \<open>
  The session layer keeps its data in the browser's \<^verbatim>\<open>localStorage\<close> as JSON text and
  reads it back with \<^verbatim>\<open>JSON.parse\<close>. A stored text is represented by what
  \<^verbatim>\<open>JSON.parse\<close> does with it: it throws (\<open>Invalid\<close>, holding the text) or it returns a
  value (\<open>Valid\<close>). Writing \<^verbatim>\<open>JSON.stringify(v)\<close> therefore stores \<open>Valid v\<close>.
  A number is held as the text \<^verbatim>\<open>String(n)\<close> gives for it, so that \<open>0\<close> and \<open>-0\<close> are both
  \<open>''0''\<close>. An object is an association list without repeated keys, in insertion order.
\<close>

datatype json =
    JNull
  | JBool bool
  | JNum string
  | JStr string
  | JArr "json list"
  | JObj "(string \<times> json) list"

datatype stored = Invalid string | Valid json

datatype js_error = SyntaxError | TypeError

fun JSON_parse :: "stored \<Rightarrow> js_error + json" where
  "JSON_parse (Invalid t) = Inl SyntaxError"
| "JSON_parse (Valid v) = Inr v"

text \<open>\<^verbatim>\<open>if (text)\<close> on a string read from storage: the empty string is falsy.\<close>

fun nonempty_text :: "stored \<Rightarrow> bool" where
  "nonempty_text (Invalid t) = (t \<noteq> [])"
| "nonempty_text (Valid v) = True"

text \<open>\<^verbatim>\<open>if (v)\<close> on a JSON value.\<close>

fun truthy :: "json \<Rightarrow> bool" where
  "truthy JNull = False"
| "truthy (JBool b) = b"
| "truthy (JNum n) = (n \<noteq> ''0'')"
| "truthy (JStr s) = (s \<noteq> [])"
| "truthy (JArr xs) = True"
| "truthy (JObj kvs) = True"

text \<open>\<^verbatim>\<open>if (s)\<close> on a value of type \<^verbatim>\<open>string | null\<close>.\<close>

fun truthy_str :: "string option \<Rightarrow> bool" where
  "truthy_str None = False"
| "truthy_str (Some t) = (t \<noteq> [])"

text \<open>
  \<^verbatim>\<open>String(v)\<close>, which \<^verbatim>\<open>localStorage.setItem(key, v)\<close> applies to the value it is given.
  Inside an array \<^verbatim>\<open>null\<close> prints as the empty string.
\<close>

fun join_comma :: "string list \<Rightarrow> string" where
  "join_comma [] = []"
| "join_comma [x] = x"
| "join_comma (x # y # ys) = x @ '','' @ join_comma (y # ys)"

fun js_String :: "json \<Rightarrow> string" where
  "js_String JNull = ''null''"
| "js_String (JBool b) = (if b then ''true'' else ''false'')"
| "js_String (JNum n) = n"
| "js_String (JStr s) = s"
| "js_String (JArr xs) =
     join_comma (map (\<lambda>x. if x = JNull then [] else js_String x) xs)"
| "js_String (JObj kvs) = ''[object Object]''"

text \<open>Decimal digits of a natural number, as template literals and index keys print it.\<close>

fun show_nat :: "nat \<Rightarrow> string" where
  "show_nat n =
     (if n < 10 then [char_of (48 + n)]
      else show_nat (n div 10) @ [char_of (48 + n mod 10)])"

declare show_nat.simps [simp del]

text \<open>
  Reading a property. \<open>None\<close> is \<^verbatim>\<open>undefined\<close>. The code reads the keys \<^verbatim>\<open>state\<close>,
  \<^verbatim>\<open>token\<close> and \<^verbatim>\<open>user\<close> only, which no string, number, boolean or array has;
  reading a property of \<^verbatim>\<open>null\<close> throws.
\<close>

fun get_prop :: "json \<Rightarrow> string \<Rightarrow> js_error + json option" where
  "get_prop JNull k = Inl TypeError"
| "get_prop (JObj kvs) k = Inr (map_of kvs k)"
| "get_prop v k = Inr None"

text \<open>Optional chaining \<^verbatim>\<open>x?.k\<close>: \<^verbatim>\<open>undefined\<close> when \<open>x\<close> is \<^verbatim>\<open>null\<close> or \<^verbatim>\<open>undefined\<close>.\<close>

fun opt_chain :: "json option \<Rightarrow> string \<Rightarrow> json option" where
  "opt_chain None k = None"
| "opt_chain (Some JNull) k = None"
| "opt_chain (Some (JObj kvs)) k = map_of kvs k"
| "opt_chain (Some v) k = None"

text \<open>\<^verbatim>\<open>if (x)\<close> where \<open>x\<close> may be \<^verbatim>\<open>undefined\<close>.\<close>

fun truthy_opt :: "json option \<Rightarrow> bool" where
  "truthy_opt None = False"
| "truthy_opt (Some v) = truthy v"

text \<open>
  Object spread \<^verbatim>\<open>{...x}\<close>: the own enumerable properties of \<open>x\<close>. A string and an
  array contribute their index keys; \<^verbatim>\<open>null\<close>, \<^verbatim>\<open>undefined\<close>, numbers and booleans
  contribute nothing.
\<close>

fun spread :: "json option \<Rightarrow> (string \<times> json) list" where
  "spread (Some (JObj kvs)) = kvs"
| "spread (Some (JStr s)) = zip (map show_nat [0..<length s]) (map (\<lambda>c. JStr [c]) s)"
| "spread (Some (JArr xs)) = zip (map show_nat [0..<length xs]) xs"
| "spread v = []"

text \<open>A property written after a spread replaces the spread's value for that key.\<close>

fun set_prop :: "string \<Rightarrow> json \<Rightarrow> (string \<times> json) list \<Rightarrow> (string \<times> json) list" where
  "set_prop k v [] = [(k, v)]"
| "set_prop k v ((k', v') # kvs) =
     (if k' = k then (k, v) # kvs else (k', v') # set_prop k v kvs)"

section \<open>The session store (useAuthStore) and its accessors\<close>

datatype clearance = L1 | L2 | L3

record user_response =
  username :: string
  email :: string
  clearance_level :: clearance
  is_active :: bool

fun clearance_json :: "clearance \<Rightarrow> json" where
  "clearance_json L1 = JStr ''L1''"
| "clearance_json L2 = JStr ''L2''"
| "clearance_json L3 = JStr ''L3''"

definition user_json :: "user_response option \<Rightarrow> json" where
  "user_json u =
     (case u of
        None \<Rightarrow> JNull
      | Some r \<Rightarrow> JObj [(''username'', JStr (username r)), (''email'', JStr (email r)),
                         (''clearance_level'', clearance_json (clearance_level r)),
                         (''is_active'', JBool (is_active r))])"

definition token_json :: "string option \<Rightarrow> json" where
  "token_json t = (case t of None \<Rightarrow> JNull | Some x \<Rightarrow> JStr x)"

text \<open>
  The function registered as \<^verbatim>\<open>clearAuthToken\<close>: the module registers
  \<^verbatim>\<open>() => store.logout()\<close>, the rehydration callback registers
  \<^verbatim>\<open>() => { state.setToken(null); state.setUser(null) }\<close>.
\<close>

datatype clearer = ViaLogout | ViaSetters

text \<open>
  The state of the page. \<open>has_window\<close> is \<^verbatim>\<open>typeof window !== "undefined"\<close>;
  \<open>href_writes\<close> are the assignments to \<^verbatim>\<open>window.location.href\<close>; \<open>ls_auth_storage\<close> and
  \<open>ls_auth_token\<close> are the \<^verbatim>\<open>localStorage\<close> keys \<^verbatim>\<open>auth-storage\<close> and \<^verbatim>\<open>auth_token\<close>;
  \<open>token\<close>, \<open>user\<close> and \<open>isAuthenticated\<close> are the in-memory state of the store.
  \<open>getAuthToken\<close> is the registered getter, \<open>None\<close> when nothing is registered. Both getters
  of the repository read the token of a state object taken when they were registered
  (\<^verbatim>\<open>() => store.token\<close>), so a registered getter is held as the value it returns.
  Storage operations are taken to succeed (no quota or security error).
\<close>

record app =
  has_window :: bool
  pathname :: string
  href_writes :: "string list"
  ls_auth_storage :: "stored option"
  ls_auth_token :: "string option"
  token :: "string option"
  user :: "user_response option"
  isAuthenticated :: bool
  getAuthToken :: "string option option"
  clearAuthToken :: "clearer option"

text \<open>
  The \<^verbatim>\<open>persist\<close> middleware of the store, configured with
  \<^verbatim>\<open>name: "auth-storage"\<close> and \<^verbatim>\<open>partialize: state => ({token, user})\<close>: after every
  \<^verbatim>\<open>set\<close> it stores \<^verbatim>\<open>{state: {token, user}, version: 0}\<close>. Without a window there is
  no \<^verbatim>\<open>localStorage\<close> and nothing is stored.
\<close>

definition persisted_record :: "string option \<Rightarrow> user_response option \<Rightarrow> json" where
  "persisted_record t u =
     JObj [(''state'', JObj [(''token'', token_json t), (''user'', user_json u)]),
           (''version'', JNum ''0'')]"

definition persist_write :: "app \<Rightarrow> app" where
  "persist_write s =
     (if has_window s
      then s\<lparr>ls_auth_storage := Some (Valid (persisted_record (token s) (user s)))\<rparr>
      else s)"

definition setUser :: "user_response option \<Rightarrow> app \<Rightarrow> app" where
  "setUser u s = persist_write (s\<lparr>user := u, isAuthenticated := (u \<noteq> None)\<rparr>)"

definition setToken :: "string option \<Rightarrow> app \<Rightarrow> app" where
  "setToken t s =
     (let s1 = persist_write (s\<lparr>token := t\<rparr>)
      in if has_window s1
         then (if truthy_str t then s1\<lparr>ls_auth_token := t\<rparr>
               else s1\<lparr>ls_auth_token := None\<rparr>)
         else s1)"

definition logout :: "app \<Rightarrow> app" where
  "logout s =
     (let s1 = persist_write (s\<lparr>user := None, token := None, isAuthenticated := False\<rparr>)
      in if has_window s1 then s1\<lparr>ls_auth_token := None\<rparr> else s1)"

definition registerAuthTokenAccessors :: "string option \<Rightarrow> clearer \<Rightarrow> app \<Rightarrow> app" where
  "registerAuthTokenAccessors g c s = s\<lparr>getAuthToken := Some g, clearAuthToken := Some c\<rparr>"

text \<open>The token of the persisted record, as \<^verbatim>\<open>JSON.parse(text).state?.token\<close> reads it.\<close>

definition record_field :: "string \<Rightarrow> stored option \<Rightarrow> json option" where
  "record_field k r =
     (case r of
        None \<Rightarrow> None
      | Some txt \<Rightarrow>
          (case JSON_parse txt of
             Inl e \<Rightarrow> None
           | Inr parsed \<Rightarrow>
               (case get_prop parsed ''state'' of
                  Inl e \<Rightarrow> None
                | Inr st \<Rightarrow> opt_chain st k)))"

text \<open>A page in a browser, nothing stored, nobody logged in, no accessor registered.\<close>

definition fresh :: app where
  "fresh = \<lparr>has_window = True, pathname = ''/dashboard'', href_writes = [],
            ls_auth_storage = None, ls_auth_token = None,
            token = None, user = None, isAuthenticated = False,
            getAuthToken = None, clearAuthToken = None\<rparr>"

section \<open>The transport client (ApiClient)\<close>

text \<open>
  \<^verbatim>\<open>getToken\<close>, first block: the token of the persisted record. The block returns the
  token (\<open>Some\<close>, with the state after the write to \<^verbatim>\<open>auth_token\<close>) or is left, by a
  failed test or by an exception that the \<^verbatim>\<open>catch\<close> swallows (\<open>None\<close>).
\<close>

definition read_structured :: "app \<Rightarrow> (app \<times> json) option" where
  "read_structured s =
     (case ls_auth_storage s of
        None \<Rightarrow> None
      | Some authStorage \<Rightarrow>
          if \<not> nonempty_text authStorage then None
          else
            (case JSON_parse authStorage of
               Inl e \<Rightarrow> None
             | Inr parsed \<Rightarrow>
                 (case get_prop parsed ''state'' of
                    Inl e \<Rightarrow> None
                  | Inr st \<Rightarrow>
                      (case opt_chain st ''token'' of
                         None \<Rightarrow> None
                       | Some tok \<Rightarrow>
                           if truthy tok
                           then Some (s\<lparr>ls_auth_token := Some (js_String tok)\<rparr>, tok)
                           else None))))"

text \<open>Second block: the registered getter.\<close>

definition read_accessor :: "app \<Rightarrow> (app \<times> json) option" where
  "read_accessor s =
     (case getAuthToken s of
        None \<Rightarrow> None
      | Some None \<Rightarrow> None
      | Some (Some tok) \<Rightarrow>
          if tok \<noteq> [] then Some (s\<lparr>ls_auth_token := Some tok\<rparr>, JStr tok) else None)"

text \<open>
  Third block, the migration of a token found under \<^verbatim>\<open>auth_token\<close>: the record is
  rewritten when it parses and holds no token, created when the key is missing, and
  left as it is when reading it throws.
\<close>

definition with_state_token :: "json \<Rightarrow> json option \<Rightarrow> json \<Rightarrow> json" where
  "with_state_token parsed st tok =
     JObj (set_prop ''state'' (JObj (set_prop ''token'' tok (spread st))) (spread (Some parsed)))"

definition migrate :: "string \<Rightarrow> app \<Rightarrow> app" where
  "migrate legacyToken s =
     (if (case ls_auth_storage s of None \<Rightarrow> False | Some authStorage \<Rightarrow> nonempty_text authStorage)
      then
        (case ls_auth_storage s of
           None \<Rightarrow> s
         | Some authStorage \<Rightarrow>
             (case JSON_parse authStorage of
                Inl e \<Rightarrow> s
              | Inr parsed \<Rightarrow>
                  (case get_prop parsed ''state'' of
                     Inl e \<Rightarrow> s
                   | Inr st \<Rightarrow>
                       if \<not> truthy_opt (opt_chain st ''token'')
                       then s\<lparr>ls_auth_storage :=
                                Some (Valid (with_state_token parsed st (JStr legacyToken)))\<rparr>
                       else s)))
      else s\<lparr>ls_auth_storage :=
               Some (Valid (JObj [(''state'', JObj [(''token'', JStr legacyToken), (''user'', JNull)]),
                                  (''version'', JNum ''0'')]))\<rparr>)"

definition read_legacy :: "app \<Rightarrow> (app \<times> json) option" where
  "read_legacy s =
     (case ls_auth_token s of
        None \<Rightarrow> None
      | Some legacyToken \<Rightarrow>
          if legacyToken \<noteq> [] then Some (migrate legacyToken s, JStr legacyToken) else None)"

text \<open>\<^verbatim>\<open>getToken\<close>: the new state and the value returned, \<open>None\<close> for \<^verbatim>\<open>null\<close>.\<close>

definition getToken :: "app \<Rightarrow> app \<times> json option" where
  "getToken s =
     (if \<not> has_window s then (s, None)
      else
        (case read_structured s of
           Some (s', tok) \<Rightarrow> (s', Some tok)
         | None \<Rightarrow>
             (case read_accessor s of
                Some (s', tok) \<Rightarrow> (s', Some tok)
              | None \<Rightarrow>
                  (case read_legacy s of
                     Some (s', tok) \<Rightarrow> (s', Some tok)
                   | None \<Rightarrow> (s, None)))))"

fun run_clearer :: "clearer \<Rightarrow> app \<Rightarrow> app" where
  "run_clearer ViaLogout s = logout s"
| "run_clearer ViaSetters s = setUser None (setToken None s)"

definition clearToken :: "app \<Rightarrow> app" where
  "clearToken s =
     (if \<not> has_window s then s
      else
        (let s1 = (case clearAuthToken s of None \<Rightarrow> s | Some c \<Rightarrow> run_clearer c s)
         in s1\<lparr>ls_auth_token := None\<rparr>))"

text \<open>The block of the response interceptor that clears the persisted record.\<close>

definition clear_persisted :: "app \<Rightarrow> app" where
  "clear_persisted s =
     (case ls_auth_storage s of
        None \<Rightarrow> s
      | Some authStorage \<Rightarrow>
          if \<not> nonempty_text authStorage then s
          else
            (case JSON_parse authStorage of
               Inl e \<Rightarrow> s
             | Inr parsed \<Rightarrow>
                 (case get_prop parsed ''state'' of
                    Inl e \<Rightarrow> s
                  | Inr st \<Rightarrow>
                      s\<lparr>ls_auth_storage :=
                          Some (Valid (JObj (set_prop ''state''
                             (JObj (set_prop ''user'' JNull (set_prop ''token'' JNull (spread st))))
                             (spread (Some parsed)))))\<rparr>)))"

definition startsWith :: "string \<Rightarrow> string \<Rightarrow> bool" where
  "startsWith s p = (take (length p) s = p)"

text \<open>
  A response as the interceptors see it: fulfilled, or rejected with
  \<^verbatim>\<open>error.response?.status\<close> (\<open>None\<close> when the error carries no response).
\<close>

datatype response = Fulfilled nat | Rejected "nat option"

fun on_response :: "response \<Rightarrow> app \<Rightarrow> app" where
  "on_response (Fulfilled status) s = s"
| "on_response (Rejected status) s =
     (if status = Some 401
      then
        (if has_window s \<and> \<not> startsWith (pathname s) ''/auth/login''
         then (clear_persisted (clearToken s))
                \<lparr>href_writes := href_writes (clear_persisted (clearToken s)) @ [''/auth/login'']\<rparr>
         else s)
      else s)"

text \<open>
  \<^verbatim>\<open>ApiClient.setToken\<close>, which \<^verbatim>\<open>authApi.login\<close> and \<^verbatim>\<open>authApi.logout\<close> call. With a
  getter registered it writes the token into the persisted record (a new record when
  the key is missing or empty) and leaves \<^verbatim>\<open>auth_token\<close> alone; \<^verbatim>\<open>auth_token\<close> is written
  when no getter is registered, and when reading the record throws.
\<close>

definition ApiClient_setToken :: "string \<Rightarrow> app \<Rightarrow> app" where
  "ApiClient_setToken tok s =
     (if \<not> has_window s then s
      else if getAuthToken s \<noteq> None
      then
        (if (case ls_auth_storage s of None \<Rightarrow> False | Some authStorage \<Rightarrow> nonempty_text authStorage)
         then
           (case ls_auth_storage s of
              None \<Rightarrow> s
            | Some authStorage \<Rightarrow>
                (case JSON_parse authStorage of
                   Inl e \<Rightarrow> s\<lparr>ls_auth_token := Some tok\<rparr>
                 | Inr parsed \<Rightarrow>
                     (case get_prop parsed ''state'' of
                        Inl e \<Rightarrow> s\<lparr>ls_auth_token := Some tok\<rparr>
                      | Inr st \<Rightarrow>
                          s\<lparr>ls_auth_storage :=
                              Some (Valid (with_state_token parsed st (JStr tok)))\<rparr>)))
         else s\<lparr>ls_auth_storage :=
                  Some (Valid (JObj [(''state'', JObj [(''token'', JStr tok), (''user'', JNull)]),
                                     (''version'', JNum ''0'')]))\<rparr>)
      else s\<lparr>ls_auth_token := Some tok\<rparr>)"

text \<open>
  A sequence of calls that set or clear the token: \<^verbatim>\<open>setToken\<close> and \<^verbatim>\<open>logout\<close> of the
  session store, and \<^verbatim>\<open>setToken\<close> of the transport client.
\<close>

datatype session_call = SetToken "string option" | Logout | ApiSetToken string

fun call :: "session_call \<Rightarrow> app \<Rightarrow> app" where
  "call (SetToken t) s = setToken t s"
| "call Logout s = logout s"
| "call (ApiSetToken t) s = ApiClient_setToken t s"

fun calls :: "session_call list \<Rightarrow> app \<Rightarrow> app" where
  "calls [] s = s"
| "calls (c # cs) s = calls cs (call c s)"

fun store_call :: "session_call \<Rightarrow> bool" where
  "store_call (SetToken t) = True"
| "store_call Logout = True"
| "store_call (ApiSetToken t) = False"

section \<open>The notification store\<close>

datatype notification_type = Info | Success | Warning | Error

text \<open>A notification; \<open>timestamp\<close> is the \<^verbatim>\<open>Date\<close> in milliseconds.\<close>

record notification =
  nid :: string
  ntype :: notification_type
  title :: string
  message :: string
  timestamp :: int
  read :: bool
  actionUrl :: "string option"

text \<open>
  The text under the key \<^verbatim>\<open>notifications\<close>, by what \<^verbatim>\<open>getNotifications\<close> makes of it:
  the list it parses and maps to, or a text for which parsing or mapping throws. A
  \<^verbatim>\<open>Date\<close> written by \<^verbatim>\<open>JSON.stringify\<close> is read back as the same millisecond, and
  writing the list is taken to succeed.
\<close>

datatype stored_list = Unreadable string | Items "notification list"

record nstore =
  nwindow :: bool
  ls_notifications :: "stored_list option"

text \<open>
  \<^verbatim>\<open>notif-${Date.now()}-${Math.random().toString(36).substr(2, 9)}\<close>. The clock reading
  and the text \<^verbatim>\<open>Math.random().toString(36)\<close> are inputs.
\<close>

definition generateNotificationId :: "nat \<Rightarrow> string \<Rightarrow> string" where
  "generateNotificationId now rnd = ''notif-'' @ show_nat now @ ''-'' @ take 9 (drop 2 rnd)"

definition getNotifications :: "nstore \<Rightarrow> notification list" where
  "getNotifications st =
     (if \<not> nwindow st then []
      else
        (case ls_notifications st of
           None \<Rightarrow> []
         | Some (Unreadable t) \<Rightarrow> []
         | Some (Items ns) \<Rightarrow> ns))"

definition MAX_NOTIFICATIONS :: nat where
  "MAX_NOTIFICATIONS = 50"

text \<open>
  \<^verbatim>\<open>sort((a, b) => b.timestamp - a.timestamp)\<close> is a stable sort, latest first.
\<close>

definition saveNotifications :: "notification list \<Rightarrow> nstore \<Rightarrow> nstore" where
  "saveNotifications notifications st =
     (if \<not> nwindow st then st
      else st\<lparr>ls_notifications :=
                Some (Items (take MAX_NOTIFICATIONS
                               (sort_key (\<lambda>n. - timestamp n) notifications)))\<rparr>)"

text \<open>
  A call of \<^verbatim>\<open>createNotification\<close> with what it reads from its environment: the clock
  for the id, the random text, and the clock for the timestamp.
\<close>

record creation =
  c_type :: notification_type
  c_title :: string
  c_message :: string
  c_actionUrl :: "string option"
  c_now_id :: nat
  c_random :: string
  c_now :: nat

definition new_notification :: "creation \<Rightarrow> notification" where
  "new_notification c =
     \<lparr>nid = generateNotificationId (c_now_id c) (c_random c), ntype = c_type c,
      title = c_title c, message = c_message c, timestamp = int (c_now c),
      read = False, actionUrl = c_actionUrl c\<rparr>"

definition createNotification :: "creation \<Rightarrow> nstore \<Rightarrow> nstore \<times> notification" where
  "createNotification c st =
     (let notification = new_notification c;
          existing = getNotifications st;
          updated = notification # existing
      in (saveNotifications updated st, notification))"

fun create_all :: "creation list \<Rightarrow> nstore \<Rightarrow> nstore" where
  "create_all [] st = st"
| "create_all (c # cs) st = create_all cs (fst (createNotification c st))"

definition empty_store :: nstore where
  "empty_store = \<lparr>nwindow = True, ls_notifications = None\<rparr>"

section \<open>What a reader of the session can see\<close>

text \<open>
  The in-memory session, the token and the user that the persisted record holds (a value
  that is \<^verbatim>\<open>null\<close>, falsy or missing counts as none), and the key \<^verbatim>\<open>auth_token\<close>.
\<close>

definition held :: "json option \<Rightarrow> json option" where
  "held v = (if truthy_opt v then v else None)"

definition session_view ::
  "app \<Rightarrow> string option \<times> user_response option \<times> bool \<times> json option \<times> json option \<times> string option" where
  "session_view s =
     (token s, user s, isAuthenticated s,
      held (record_field ''token'' (ls_auth_storage s)),
      held (record_field ''user'' (ls_auth_storage s)),
      ls_auth_token s)"

definition logged_out :: "app \<Rightarrow> bool" where
  "logged_out s = (session_view s = (None, None, False, None, None, None))"

section \<open>The event bus: \<^verbatim>\<open>window\<close> as an event target\<close>

text \<open>
  The vault page announces a finished ingestion with
  \<^verbatim>\<open>window.dispatchEvent(new CustomEvent('graph-data-updated', {detail}))\<close>; the graph page
  registers \<^verbatim>\<open>handleGraphUpdate\<close> in an effect when it mounts and removes it when it
  unmounts. The event target is the browser's: a list of (event name, handler) pairs in
  registration order, a pair registered once; a dispatch calls, before it returns, the
  handlers registered for the name. Every \<^verbatim>\<open>new CustomEvent\<close> is a fresh object, numbered
  here in order of creation. A handler is named by the mount that created it.
\<close>

record detail =
  entities_extracted :: nat
  relations_extracted :: nat

record bus =
  listeners :: "(string \<times> nat) list"
  next_event :: nat
  received :: "(nat \<times> nat \<times> detail) list"
  loads :: nat

definition addEventListener :: "string \<Rightarrow> nat \<Rightarrow> bus \<Rightarrow> bus" where
  "addEventListener name h b =
     (if (name, h) \<in> set (listeners b) then b else b\<lparr>listeners := listeners b @ [(name, h)]\<rparr>)"

definition removeEventListener :: "string \<Rightarrow> nat \<Rightarrow> bus \<Rightarrow> bus" where
  "removeEventListener name h b = b\<lparr>listeners := filter (\<lambda>l. l \<noteq> (name, h)) (listeners b)\<rparr>"

definition loadAllGraphData :: "bus \<Rightarrow> bus" where
  "loadAllGraphData b = b\<lparr>loads := Suc (loads b)\<rparr>"

text \<open>\<^verbatim>\<open>handleGraphUpdate\<close> of mount \<open>h\<close>, called with event number \<open>e\<close>: it logs the
  detail and reloads the graph.\<close>

definition handleGraphUpdate :: "nat \<Rightarrow> nat \<Rightarrow> detail \<Rightarrow> bus \<Rightarrow> bus" where
  "handleGraphUpdate h e d b = loadAllGraphData (b\<lparr>received := received b @ [(h, e, d)]\<rparr>)"

fun call_handlers :: "nat list \<Rightarrow> nat \<Rightarrow> detail \<Rightarrow> bus \<Rightarrow> bus" where
  "call_handlers [] e d b = b"
| "call_handlers (h # hs) e d b = call_handlers hs e d (handleGraphUpdate h e d b)"

definition dispatchEvent :: "string \<Rightarrow> detail \<Rightarrow> bus \<Rightarrow> bus" where
  "dispatchEvent name d b =
     call_handlers (map snd (filter (\<lambda>l. fst l = name) (listeners b))) (next_event b) d
       (b\<lparr>next_event := Suc (next_event b)\<rparr>)"

datatype bus_action = MountGraphPage nat | UnmountGraphPage nat | IngestionDone detail

fun act :: "bus_action \<Rightarrow> bus \<Rightarrow> bus" where
  "act (MountGraphPage h) b = addEventListener ''graph-data-updated'' h (loadAllGraphData b)"
| "act (UnmountGraphPage h) b = removeEventListener ''graph-data-updated'' h b"
| "act (IngestionDone d) b = dispatchEvent ''graph-data-updated'' d b"

fun acts :: "bus_action list \<Rightarrow> bus \<Rightarrow> bus" where
  "acts [] b = b"
| "acts (a # as) b = acts as (act a b)"

definition bus0 :: bus where
  "bus0 = \<lparr>listeners = [], next_event = 0, received = [], loads = 0\<rparr>"

section \<open>The route guard (DashboardLayout)\<close>

datatype view = LoadingSpinner | Shell

text \<open>
  The component's two state variables, the dependencies of the authentication effect at
  its last run (\<open>None\<close> before the first commit), the pending
  \<^verbatim>\<open>setTimeout(checkAuth, 0)\<close> with the \<^verbatim>\<open>token\<close> and \<^verbatim>\<open>isAuthenticated\<close> its closure
  holds, and the calls of \<^verbatim>\<open>router.push\<close>.
\<close>

record guard =
  isClient :: bool
  hasCheckedAuth :: bool
  last_deps :: "(string option \<times> bool \<times> bool) option"
  timer :: "(string option \<times> bool) option"
  pushes :: "string list"

definition render :: "guard \<Rightarrow> view" where
  "render g = (if \<not> isClient g \<or> \<not> hasCheckedAuth g then LoadingSpinner else Shell)"

text \<open>The body of the authentication effect, with the values of the render it belongs to.\<close>

definition auth_effect :: "string option \<Rightarrow> bool \<Rightarrow> bool \<Rightarrow> guard \<Rightarrow> guard" where
  "auth_effect tok auth ic g = (if \<not> ic then g else g\<lparr>timer := Some (tok, auth)\<rparr>)"

text \<open>
  A commit of a render made with the store's \<open>tok\<close> and \<open>auth\<close>. The first commit runs
  both effects: \<^verbatim>\<open>setIsClient(true)\<close>, then the authentication effect, which still sees
  \<^verbatim>\<open>isClient\<close> false. A later commit runs the authentication effect again when its
  dependencies changed, after the cleanup of the previous run (\<^verbatim>\<open>clearTimeout\<close>).
\<close>

definition commit :: "string option \<Rightarrow> bool \<Rightarrow> guard \<Rightarrow> guard" where
  "commit tok auth g =
     (let ic = isClient g; deps = (tok, auth, ic)
      in case last_deps g of
           None \<Rightarrow> auth_effect tok auth ic (g\<lparr>isClient := True, last_deps := Some deps\<rparr>)
         | Some d \<Rightarrow>
             if d = deps then g
             else auth_effect tok auth ic (g\<lparr>timer := None, last_deps := Some deps\<rparr>))"

text \<open>\<^verbatim>\<open>checkAuth\<close>; \<open>legacy\<close> is what \<^verbatim>\<open>localStorage.getItem("auth_token")\<close> returns
  when the timer fires.\<close>

definition checkAuth :: "string option \<Rightarrow> bool \<Rightarrow> string option \<Rightarrow> guard \<Rightarrow> guard" where
  "checkAuth tok auth legacy g =
     (let currentToken = (if truthy_str tok then tok else legacy);
          hasAuth = (auth \<or> truthy_str currentToken)
      in if \<not> hasAuth then g\<lparr>pushes := pushes g @ [''/auth/login'']\<rparr>
         else g\<lparr>hasCheckedAuth := True\<rparr>)"

datatype guard_event = Commit "string option" bool | TimerFires "string option" | Unmount

fun guard_step :: "guard_event \<Rightarrow> guard \<Rightarrow> guard" where
  "guard_step (Commit tok auth) g = commit tok auth g"
| "guard_step (TimerFires legacy) g =
     (case timer g of
        None \<Rightarrow> g
      | Some (tok, auth) \<Rightarrow> checkAuth tok auth legacy (g\<lparr>timer := None\<rparr>))"
| "guard_step Unmount g = g\<lparr>timer := None\<rparr>"

fun guard_run :: "guard_event list \<Rightarrow> guard \<Rightarrow> guard" where
  "guard_run [] g = g"
| "guard_run (e # es) g = guard_run es (guard_step e g)"

definition guard0 :: guard where
  "guard0 = \<lparr>isClient = False, hasCheckedAuth = False, last_deps = None, timer = None, pushes = []\<rparr>"

definition hydrating :: "guard \<Rightarrow> bool" where
  "hydrating g = (isClient g \<and> \<not> hasCheckedAuth g)"

section \<open>The page: the session store and the route guard together\<close>

text \<open>
  When the store is created, the \<^verbatim>\<open>persist\<close> middleware rehydrates it from its storage.
  With a synchronous storage such as \<^verbatim>\<open>localStorage\<close> this is finished when
  \<^verbatim>\<open>create\<close> returns, that is, when the module of the store has loaded; the layout
  imports that module, so no render of the guard comes before it. The middleware uses
  the \<^verbatim>\<open>state\<close> of the parsed record unless the record carries a number other than 0 as
  its \<^verbatim>\<open>version\<close>, and merges it over the initial state,
  \<^verbatim>\<open>{...currentState, ...persistedState}\<close>. The store's types are \<^verbatim>\<open>string | null\<close> for
  the token and \<^verbatim>\<open>UserResponse | null\<close> for the user: a stored value of another type
  is read here as \<^verbatim>\<open>null\<close>.
\<close>

fun token_of_json :: "json \<Rightarrow> string option" where
  "token_of_json (JStr t) = Some t"
| "token_of_json v = None"

fun str_of :: "json option \<Rightarrow> string option" where
  "str_of (Some (JStr t)) = Some t"
| "str_of v = None"

fun bool_of :: "json option \<Rightarrow> bool option" where
  "bool_of (Some (JBool b)) = Some b"
| "bool_of v = None"

definition clearance_of :: "string \<Rightarrow> clearance option" where
  "clearance_of c =
     (if c = ''L1'' then Some L1 else if c = ''L2'' then Some L2
      else if c = ''L3'' then Some L3 else None)"

definition user_of_json :: "json \<Rightarrow> user_response option" where
  "user_of_json v =
     (case v of
        JObj kvs \<Rightarrow>
          (case str_of (map_of kvs ''username'') of
             None \<Rightarrow> None
           | Some n \<Rightarrow>
               (case str_of (map_of kvs ''email'') of
                  None \<Rightarrow> None
                | Some e \<Rightarrow>
                    (case Option.bind (str_of (map_of kvs ''clearance_level'')) clearance_of of
                       None \<Rightarrow> None
                     | Some c \<Rightarrow>
                         (case bool_of (map_of kvs ''is_active'') of
                            None \<Rightarrow> None
                          | Some a \<Rightarrow>
                              Some \<lparr>username = n, email = e, clearance_level = c,
                                    is_active = a\<rparr>))))
      | _ \<Rightarrow> None)"

definition persisted_state :: "json \<Rightarrow> json option" where
  "persisted_state parsed =
     (case parsed of
        JObj kvs \<Rightarrow>
          (case map_of kvs ''version'' of
             Some (JNum n) \<Rightarrow> if n \<noteq> ''0'' then None else map_of kvs ''state''
           | _ \<Rightarrow> map_of kvs ''state'')
      | _ \<Rightarrow> None)"

definition merge_persisted :: "json option \<Rightarrow> app \<Rightarrow> app" where
  "merge_persisted st s =
     s\<lparr>token := (case map_of (spread st) ''token'' of
                    None \<Rightarrow> token s | Some v \<Rightarrow> token_of_json v),
       user := (case map_of (spread st) ''user'' of
                   None \<Rightarrow> user s | Some v \<Rightarrow> user_of_json v),
       isAuthenticated := (case map_of (spread st) ''isAuthenticated'' of
                             None \<Rightarrow> isAuthenticated s | Some v \<Rightarrow> truthy v)\<rparr>"

text \<open>The callback of \<^verbatim>\<open>onRehydrateStorage\<close>, called with the rehydrated state.\<close>

definition onRehydrate :: "app \<Rightarrow> app" where
  "onRehydrate s =
     (let s1 = registerAuthTokenAccessors (token s) ViaSetters s
      in if truthy_str (token s1) then s1\<lparr>ls_auth_token := token s1\<rparr> else s1)"

text \<open>
  Rehydration in a browser. A missing key leaves the state as it is; a text that does
  not parse is caught by the middleware, which then calls the callback with no state.
\<close>

definition hydrate :: "app \<Rightarrow> app" where
  "hydrate s =
     (case ls_auth_storage s of
        None \<Rightarrow> onRehydrate s
      | Some authStorage \<Rightarrow>
          (case JSON_parse authStorage of
             Inl e \<Rightarrow> s
           | Inr parsed \<Rightarrow> onRehydrate (merge_persisted (persisted_state parsed) s)))"

text \<open>
  The load of a page on the storage of \<open>s\<close>: the modules of the transport client and of
  the session store are evaluated. The store is created empty and rehydrated; then the
  module registers its accessors and copies a token into \<^verbatim>\<open>auth_token\<close>. Without a
  window there is no storage and the store stays empty.
\<close>

definition load_page :: "app \<Rightarrow> app" where
  "load_page s =
     (let s0 = s\<lparr>href_writes := [], token := None, user := None, isAuthenticated := False,
                 getAuthToken := None, clearAuthToken := None\<rparr>
      in if \<not> has_window s0 then s0
         else
           (let s1 = hydrate s0;
                s2 = registerAuthTokenAccessors (token s1) ViaLogout s1
            in if truthy_str (token s2) then s2\<lparr>ls_auth_token := token s2\<rparr> else s2))"

text \<open>
  What happens on the page of the guard: a render is committed with the token and the
  flag the store holds, the timer fires and reads \<^verbatim>\<open>auth_token\<close>, the guard unmounts,
  or one of the calls that set or clear the token is made.
\<close>

datatype page_event = Renders | TimerFired | Unmounted | Called session_call

fun page_step :: "page_event \<Rightarrow> app \<times> guard \<Rightarrow> app \<times> guard" where
  "page_step Renders (s, g) = (s, guard_step (Commit (token s) (isAuthenticated s)) g)"
| "page_step TimerFired (s, g) =
     (s, guard_step (TimerFires (if has_window s then ls_auth_token s else None)) g)"
| "page_step Unmounted (s, g) = (s, guard_step Unmount g)"
| "page_step (Called c) (s, g) = (call c s, g)"

fun page_run :: "page_event list \<Rightarrow> app \<times> guard \<Rightarrow> app \<times> guard" where
  "page_run [] p = p"
| "page_run (e # es) p = page_run es (page_step e p)"

fun calls_of :: "page_event list \<Rightarrow> session_call list" where
  "calls_of [] = []"
| "calls_of (Called c # es) = c # calls_of es"
| "calls_of (e # es) = calls_of es"

section \<open>Predicates used in the properties\<close>

text \<open>
  The mirror agrees with the session: the key \<^verbatim>\<open>auth_token\<close> holds the session's token
  when that is a non-empty string and is missing otherwise, and the persisted record
  holds the session's token.
\<close>

definition mirror_ok :: "app \<Rightarrow> bool" where
  "mirror_ok s =
     (ls_auth_token s = (if truthy_str (token s) then token s else None) \<and>
      record_field ''token'' (ls_auth_storage s) = Some (token_json (token s)))"

text \<open>A string that \<^verbatim>\<open>if (s)\<close> accepts, and the token of the registered getter if it is one.\<close>

definition nonempty :: "string option \<Rightarrow> string option" where
  "nonempty x = (if truthy_str x then x else None)"

definition registered_token :: "app \<Rightarrow> string option" where
  "registered_token s = (case getAuthToken s of None \<Rightarrow> None | Some g \<Rightarrow> nonempty g)"

text \<open>
  The persisted record can take a migrated token: the key is missing, its text is
  empty, or its text parses to a value other than \<^verbatim>\<open>null\<close>.
\<close>

fun migratable :: "stored option \<Rightarrow> bool" where
  "migratable None = True"
| "migratable (Some (Invalid t)) = (t = [])"
| "migratable (Some (Valid v)) = (v \<noteq> JNull)"

text \<open>
  What \<^verbatim>\<open>ApiClient.setToken\<close> does to the state \<open>s\<close> it is called in: the in-memory
  session stays; with a getter registered and a record that can take the token, the
  record gets the token and \<^verbatim>\<open>auth_token\<close> stays; otherwise \<^verbatim>\<open>auth_token\<close> gets the
  token and the record stays.
\<close>

definition api_effect :: "string \<Rightarrow> app \<Rightarrow> app \<Rightarrow> bool" where
  "api_effect t s s' =
     (token s' = token s \<and>
      (if getAuthToken s \<noteq> None \<and> migratable (ls_auth_storage s)
       then ls_auth_token s' = ls_auth_token s \<and>
            record_field ''token'' (ls_auth_storage s') = Some (JStr t)
       else ls_auth_token s' = Some t \<and> ls_auth_storage s' = ls_auth_storage s))"

text \<open>Pages used as examples.\<close>

definition alice :: user_response where
  "alice = \<lparr>username = ''alice'', email = ''alice@example.org'', clearance_level = L2,
            is_active = True\<rparr>"

definition logged_in :: app where
  "logged_in = registerAuthTokenAccessors (Some ''abc'') ViaLogout
                 (setUser (Some alice) (setToken (Some ''abc'') fresh))"

definition legacy_only :: app where
  "legacy_only = fresh\<lparr>ls_auth_token := Some ''abc''\<rparr>"

definition corrupt_legacy :: app where
  "corrupt_legacy =
     fresh\<lparr>ls_auth_storage := Some (Invalid ''{bad''), ls_auth_token := Some ''abc''\<rparr>"

definition corrupt_stale :: app where
  "corrupt_stale =
     fresh\<lparr>ls_auth_storage := Some (Invalid ''{bad''), ls_auth_token := Some ''new'',
           getAuthToken := Some (Some ''old'')\<rparr>"

text \<open>Creations used as examples: sixty in a row, a millisecond apart, and two in the
  same millisecond that draw the same random number.\<close>

definition numbered :: "nat \<Rightarrow> creation" where
  "numbered i = \<lparr>c_type = Info, c_title = ''File Ingested'', c_message = show_nat i,
                 c_actionUrl = None, c_now_id = 1700000000000 + i, c_random = ''0.4fzyo82mvyr'',
                 c_now = 1700000000000 + i\<rparr>"

definition sixty :: "creation list" where
  "sixty = map numbered [0..<60]"

definition first_alert :: creation where
  "first_alert = \<lparr>c_type = Success, c_title = ''File Ingested'', c_message = ''a.pdf'',
                   c_actionUrl = None, c_now_id = 1700000000000, c_random = ''0.4fzyo82mvyr'',
                   c_now = 1700000000000\<rparr>"

definition second_alert :: creation where
  "second_alert = \<lparr>c_type = Error, c_title = ''Extraction Failed'', c_message = ''b.pdf'',
                    c_actionUrl = Some ''/dashboard/vault'', c_now_id = 1700000000000,
                    c_random = ''0.4fzyo82mvyr'', c_now = 1700000000000\<rparr>"

text \<open>Every delivery so far belongs to an event that was already dispatched.\<close>

definition numbered_ok :: "bus \<Rightarrow> bool" where
  "numbered_ok b = (\<forall>x \<in> set (received b). fst (snd x) < next_event b)"

definition counts :: detail where
  "counts = \<lparr>entities_extracted = 3, relations_extracted = 5\<rparr>"

text \<open>
  On the page with store \<open>s0\<close>: the store is still \<open>s0\<close>, a pending check holds the
  token and the flag of \<open>s0\<close>, and nothing was pushed if \<open>s0\<close> holds a token.
\<close>

definition check_holds :: "app \<Rightarrow> app \<times> guard \<Rightarrow> bool" where
  "check_holds s0 p =
     (fst p = s0 \<and>
      (case timer (snd p) of
         None \<Rightarrow> True
       | Some (t, a) \<Rightarrow> t = token s0 \<and> a = isAuthenticated s0) \<and>
      (if truthy_str (token s0) then pushes (snd p) = [] else True))"

text \<open>The storage of a browser in which \<open>alice\<close> logged in with the token \<^verbatim>\<open>abc\<close>.\<close>

definition returning :: app where
  "returning = fresh\<lparr>ls_auth_storage := Some (Valid (persisted_record (Some ''abc'') (Some alice)))\<rparr>"

text \<open>The guard after its first commit, and after the commit of the re-render.\<close>

definition mounted :: guard where
  "mounted = guard_run [Commit (Some ''abc'') False] guard0"

definition waiting :: guard where
  "waiting = guard_run [Commit (Some ''abc'') False, Commit (Some ''abc'') False] guard0"

section \<open>Properties of the session store\<close>

lemma map_of_set_prop: "map_of (set_prop k v kvs) k = Some v"
  by (induction kvs) auto

lemma has_window_call: "has_window (call c s) = has_window s"
  by (cases c)
     (simp_all add: setToken_def logout_def persist_write_def ApiClient_setToken_def Let_def
        split: option.splits sum.splits)

lemma has_window_calls: "has_window (calls cs s) = has_window s"
  by (induction cs arbitrary: s) (simp_all add: has_window_call)

lemma mirror_ok_call: "has_window s \<Longrightarrow> store_call c \<Longrightarrow> mirror_ok (call c s)"
  by (cases c) (auto simp add: mirror_ok_def setToken_def logout_def persist_write_def Let_def
      record_field_def persisted_record_def token_json_def)

lemma calls_snoc: "calls (cs @ [c]) s = call c (calls cs s)"
  by (induction cs arbitrary: s) simp_all

lemma api_effect_call: "has_window s \<Longrightarrow> api_effect t s (ApiClient_setToken t s)"
proof (cases "ls_auth_storage s")
  case None
  assume "has_window s"
  with None show ?thesis
    by (simp add: api_effect_def ApiClient_setToken_def record_field_def)
next
  case (Some r)
  assume w: "has_window s"
  show ?thesis
  proof (cases r)
    case (Invalid x)
    with Some w show ?thesis
      by (simp add: api_effect_def ApiClient_setToken_def record_field_def)
  next
    case (Valid v)
    show ?thesis
    proof (cases "v = JNull")
      case True
      with Some Valid w show ?thesis
        by (simp add: api_effect_def ApiClient_setToken_def)
    next
      case False
      then obtain st where "get_prop v ''state'' = Inr st"
        by (cases v) simp_all
      with Some Valid w False show ?thesis
        by (simp add: api_effect_def ApiClient_setToken_def record_field_def
            with_state_token_def map_of_set_prop)
    qed
  qed
qed

text \<open>
  Claim C2, as the code has it. In a browser, in a sequence of calls of \<^verbatim>\<open>setToken\<close> and
  \<^verbatim>\<open>logout\<close> of the session store and of \<^verbatim>\<open>setToken\<close> of the transport client: after each
  call of the session store the key \<^verbatim>\<open>auth_token\<close> is present exactly when the session's
  token is a non-empty string, and then holds that token, and the persisted record holds
  the session's token; a call of \<^verbatim>\<open>ApiClient.setToken\<close> writes the record or the key, not
  both, and leaves the in-memory session as it was.
\<close>

theorem mirror_consistency:
  assumes "has_window s" and "n < length cs"
  shows "(store_call (cs ! n) \<longrightarrow> mirror_ok (calls (take (Suc n) cs) s)) \<and>
         (\<forall>t. cs ! n = ApiSetToken t \<longrightarrow>
            api_effect t (calls (take n cs) s) (calls (take (Suc n) cs) s))"
proof -
  have "take (Suc n) cs = take n cs @ [cs ! n]"
    using assms(2) by (simp add: take_Suc_conv_app_nth)
  then have c: "calls (take (Suc n) cs) s = call (cs ! n) (calls (take n cs) s)"
    by (simp add: calls_snoc)
  have w: "has_window (calls (take n cs) s)"
    using assms(1) by (simp add: has_window_calls)
  show ?thesis
    using w by (auto simp add: c mirror_ok_call api_effect_call)
qed

text \<open>
  The theorem on the page of a logged-in user, for a call of \<^verbatim>\<open>ApiClient.setToken\<close>
  followed by a login and a logout through the session store.
\<close>

theorem mirror_consistency_witness:
  "has_window logged_in \<and>
   (1::nat) < length [ApiSetToken ''xyz'', SetToken (Some ''xyz''), Logout] \<and>
   store_call ([ApiSetToken ''xyz'', SetToken (Some ''xyz''), Logout] ! 1) \<and>
   mirror_ok (calls (take (Suc 1) [ApiSetToken ''xyz'', SetToken (Some ''xyz''), Logout]) logged_in) \<and>
   api_effect ''xyz''
     (calls (take 0 [ApiSetToken ''xyz'', SetToken (Some ''xyz''), Logout]) logged_in)
     (calls (take (Suc 0) [ApiSetToken ''xyz'', SetToken (Some ''xyz''), Logout]) logged_in)"
proof -
  let ?cs = "[ApiSetToken ''xyz'', SetToken (Some ''xyz''), Logout]"
  have w: "has_window logged_in"
    by (simp add: logged_in_def registerAuthTokenAccessors_def setUser_def setToken_def
        persist_write_def fresh_def Let_def)
  have l1: "(1::nat) < length ?cs" and l0: "(0::nat) < length ?cs"
    by simp_all
  have k: "store_call (?cs ! 1)" and a: "?cs ! 0 = ApiSetToken ''xyz''"
    by simp_all
  have m: "mirror_ok (calls (take (Suc 1) ?cs) logged_in)"
    using mirror_consistency [OF w l1] k by blast
  have e: "api_effect ''xyz'' (calls (take 0 ?cs) logged_in) (calls (take (Suc 0) ?cs) logged_in)"
    using mirror_consistency [OF w l0] a by blast
  show ?thesis
    by (intro conjI w l1 k m e)
qed

text \<open>
  Claim C2 as written fails twice. After \<^verbatim>\<open>setToken("")\<close> the session's token and the
  record's token are \<^verbatim>\<open>""\<close>, not \<^verbatim>\<open>null\<close>, and the key \<^verbatim>\<open>auth_token\<close> is missing. After
  \<^verbatim>\<open>ApiClient.setToken("xyz")\<close> on the page of a user logged in with \<^verbatim>\<open>abc\<close>, the record
  holds \<^verbatim>\<open>xyz\<close> while the key \<^verbatim>\<open>auth_token\<close> and the session still hold \<^verbatim>\<open>abc\<close>.
\<close>

theorem mirror_consistency_counterexample:
  "token (calls [SetToken (Some [])] fresh) = Some [] \<and>
   record_field ''token'' (ls_auth_storage (calls [SetToken (Some [])] fresh)) = Some (JStr []) \<and>
   ls_auth_token (calls [SetToken (Some [])] fresh) = None \<and>
   record_field ''token'' (ls_auth_storage (calls [ApiSetToken ''xyz''] logged_in))
     = Some (JStr ''xyz'') \<and>
   ls_auth_token (calls [ApiSetToken ''xyz''] logged_in) = Some ''abc'' \<and>
   token (calls [ApiSetToken ''xyz''] logged_in) = Some ''abc''"
  by (simp add: fresh_def logged_in_def registerAuthTokenAccessors_def setUser_def setToken_def
      persist_write_def Let_def record_field_def persisted_record_def token_json_def user_json_def
      ApiClient_setToken_def with_state_token_def)

text \<open>
  Claim C6. Calling \<^verbatim>\<open>logout\<close> twice gives the state that calling it once gives, and
  calling it when nobody is logged in (no session in memory, none in the persisted
  record, no \<^verbatim>\<open>auth_token\<close> key) leaves all of that as it was. The function has no
  failing branch.
\<close>

theorem logout_idempotent:
  "logout (logout s) = logout s \<and>
   (logged_out s \<longrightarrow> session_view (logout s) = session_view s)"
  by (auto simp add: logged_out_def session_view_def held_def logout_def persist_write_def Let_def
      record_field_def persisted_record_def token_json_def user_json_def)

text \<open>The theorem on a page where nothing was ever stored.\<close>

theorem logout_idempotent_witness:
  "logged_out fresh \<and> session_view (logout fresh) = session_view fresh"
  using logout_idempotent [of fresh]
  by (simp add: logged_out_def session_view_def held_def fresh_def record_field_def)

section \<open>Properties of the transport client\<close>

text \<open>
  Claim C10. When \<^verbatim>\<open>getToken\<close> returns a token, from the persisted record, from the
  registered getter or from the key \<^verbatim>\<open>auth_token\<close>, that key holds the token afterwards
  (as the string \<^verbatim>\<open>setItem\<close> makes of it; a string token is stored as it is).
\<close>

theorem getToken_writes_mirror:
  assumes "getToken s = (s', Some tok)"
  shows "ls_auth_token s' = Some (js_String tok) \<and>
         (\<forall>t. tok = JStr t \<longrightarrow> ls_auth_token s' = Some t)"
  using assms
  by (auto simp add: getToken_def read_structured_def read_accessor_def read_legacy_def migrate_def
      split: if_splits option.splits sum.splits)

text \<open>
  The theorem on a page whose persisted record holds a token while the key
  \<^verbatim>\<open>auth_token\<close> is missing: reading the token creates the key.
\<close>

theorem getToken_writes_mirror_witness:
  "ls_auth_token (fresh\<lparr>ls_auth_storage := Some (Valid (persisted_record (Some ''abc'') None))\<rparr>) = None \<and>
   snd (getToken (fresh\<lparr>ls_auth_storage := Some (Valid (persisted_record (Some ''abc'') None))\<rparr>))
     = Some (JStr ''abc'') \<and>
   ls_auth_token
     (fst (getToken (fresh\<lparr>ls_auth_storage := Some (Valid (persisted_record (Some ''abc'') None))\<rparr>)))
     = Some ''abc''"
proof -
  let ?s = "fresh\<lparr>ls_auth_storage := Some (Valid (persisted_record (Some ''abc'') None))\<rparr>"
  have r: "snd (getToken ?s) = Some (JStr ''abc'')"
    by (simp add: getToken_def read_structured_def fresh_def persisted_record_def token_json_def)
  then have h: "getToken ?s = (fst (getToken ?s), Some (JStr ''abc''))"
    by (metis prod.collapse)
  have "ls_auth_token (fst (getToken ?s)) = Some ''abc''"
    using getToken_writes_mirror [OF h] by simp
  moreover have "ls_auth_token ?s = None"
    by (simp add: fresh_def)
  ultimately show ?thesis
    using r by simp
qed

lemma JSON_parse_Inr: "JSON_parse x = Inr v \<longleftrightarrow> x = Valid v"
  by (cases x) auto

lemma get_prop_ok: "v \<noteq> JNull \<Longrightarrow> \<exists>st. get_prop v k = Inr st"
  by (cases v) simp_all

lemma map_of_set_prop_other: "k' \<noteq> k \<Longrightarrow> map_of (set_prop k v kvs) k' = map_of kvs k'"
  by (induction kvs) auto

lemma read_accessor_eq:
  "read_accessor s =
     (case registered_token s of
        None \<Rightarrow> None
      | Some a \<Rightarrow> Some (s\<lparr>ls_auth_token := Some a\<rparr>, JStr a))"
  by (auto simp add: read_accessor_def registered_token_def nonempty_def split: option.splits)

lemma read_structured_iff:
  "read_structured s =
     (case held (record_field ''token'' (ls_auth_storage s)) of
        None \<Rightarrow> None
      | Some tok \<Rightarrow> Some (s\<lparr>ls_auth_token := Some (js_String tok)\<rparr>, tok))"
proof (cases "ls_auth_storage s")
  case None
  then show ?thesis
    by (simp add: read_structured_def record_field_def held_def)
next
  case (Some r)
  then show ?thesis
    by (cases r)
       (auto simp add: read_structured_def record_field_def held_def
          split: sum.splits option.splits)
qed

text \<open>
  Claim C3, as the code has it. In a browser, when the persisted record is not valid
  JSON, \<^verbatim>\<open>getToken\<close> returns (it has no failing branch: the exception of the parser is
  caught): the token of the registered getter if a getter is registered and its token is
  a non-empty string; otherwise the value of the key \<^verbatim>\<open>auth_token\<close> if that is present
  and non-empty; otherwise \<^verbatim>\<open>null\<close>.
\<close>

theorem fail_open_on_corruption:
  assumes "has_window s" and "ls_auth_storage s = Some (Invalid t)"
  shows "snd (getToken s) =
           map_option JStr
             (case registered_token s of
                Some a \<Rightarrow> Some a
              | None \<Rightarrow> nonempty (ls_auth_token s))"
  using assms
  by (auto simp add: getToken_def read_structured_def read_accessor_eq read_legacy_def nonempty_def
      split: option.splits)

text \<open>The theorem on a page with a broken record, a getter and a mirror.\<close>

theorem fail_open_on_corruption_witness:
  "has_window corrupt_stale \<and> ls_auth_storage corrupt_stale = Some (Invalid ''{bad'') \<and>
   snd (getToken corrupt_stale) =
     map_option JStr
       (case registered_token corrupt_stale of
          Some a \<Rightarrow> Some a
        | None \<Rightarrow> nonempty (ls_auth_token corrupt_stale))"
  using fail_open_on_corruption [of corrupt_stale "''{bad''"]
  by (simp add: corrupt_stale_def fresh_def)

text \<open>
  Claim C3 as written fails when a getter is registered: the record is not valid JSON,
  the key \<^verbatim>\<open>auth_token\<close> holds \<^verbatim>\<open>new\<close>, and \<^verbatim>\<open>getToken\<close> returns the getter's \<^verbatim>\<open>old\<close>.
\<close>

theorem fail_open_on_corruption_counterexample:
  "ls_auth_storage corrupt_stale = Some (Invalid ''{bad'') \<and>
   ls_auth_token corrupt_stale = Some ''new'' \<and>
   snd (getToken corrupt_stale) = Some (JStr ''old'')"
  by (simp add: corrupt_stale_def fresh_def getToken_def read_structured_def read_accessor_def)

lemma record_field_with_state_token:
  "get_prop parsed ''state'' = Inr st \<Longrightarrow>
   record_field ''token'' (Some (Valid (with_state_token parsed st tok))) = Some tok"
  by (simp add: record_field_def with_state_token_def map_of_set_prop)

lemma same_mirror: "ls_auth_token s = Some t \<Longrightarrow> s\<lparr>ls_auth_token := Some t\<rparr> = s"
  by (cases s) simp

lemma migrate_mirror: "ls_auth_token (migrate t s) = ls_auth_token s"
  by (simp add: migrate_def split: option.splits sum.splits)

lemma migrate_record:
  assumes "migratable (ls_auth_storage s)" and "read_structured s = None"
  shows "record_field ''token'' (ls_auth_storage (migrate t s)) = Some (JStr t)"
proof (cases "ls_auth_storage s")
  case None
  then show ?thesis
    by (simp add: migrate_def record_field_def)
next
  case (Some r)
  show ?thesis
  proof (cases r)
    case (Invalid x)
    with Some assms(1) show ?thesis
      by (simp add: migrate_def record_field_def)
  next
    case (Valid v)
    with Some assms(1) have "v \<noteq> JNull" by simp
    then obtain st where st: "get_prop v ''state'' = Inr st"
      using get_prop_ok by blast
    have "\<not> truthy_opt (opt_chain st ''token'')"
      using assms(2) Some Valid st
      by (auto simp add: read_structured_def split: option.splits if_splits)
    then show ?thesis
      using Some Valid st
      by (simp add: migrate_def record_field_with_state_token)
  qed
qed

lemma migrate_stuck: "\<not> migratable (ls_auth_storage s) \<Longrightarrow> migrate t s = s"
  by (cases "ls_auth_storage s" rule: migratable.cases) (simp_all add: migrate_def)

text \<open>
  Claim C4, as the code has it. In a browser, when \<^verbatim>\<open>getToken\<close> finds no token in the
  persisted record and none from the getter and reads a non-empty value from the key
  \<^verbatim>\<open>auth_token\<close>, it returns that value; if the record's key is missing, empty, or parses
  to a value other than \<^verbatim>\<open>null\<close>, the value is written into the record before the return,
  and the first block of the next \<^verbatim>\<open>getToken\<close> finds it there and changes nothing; if
  the record does not parse (or is \<^verbatim>\<open>null\<close>), nothing is written.
\<close>

theorem legacy_migration:
  assumes "has_window s" and "read_structured s = None" and "read_accessor s = None"
    and "ls_auth_token s = Some t" and "t \<noteq> []"
  shows "snd (getToken s) = Some (JStr t) \<and>
         (migratable (ls_auth_storage s) \<longrightarrow>
            read_structured (fst (getToken s)) = Some (fst (getToken s), JStr t)) \<and>
         (\<not> migratable (ls_auth_storage s) \<longrightarrow> fst (getToken s) = s)"
proof -
  have g: "getToken s = (migrate t s, Some (JStr t))"
    using assms by (simp add: getToken_def read_legacy_def)
  have m: "ls_auth_token (migrate t s) = Some t"
    using assms(4) by (simp add: migrate_mirror)
  have "read_structured (migrate t s) = Some (migrate t s, JStr t)"
    if "migratable (ls_auth_storage s)"
  proof -
    have "record_field ''token'' (ls_auth_storage (migrate t s)) = Some (JStr t)"
      using that assms(2) by (rule migrate_record)
    then have "read_structured (migrate t s) =
        Some ((migrate t s)\<lparr>ls_auth_token := Some t\<rparr>, JStr t)"
      using assms(5) by (simp add: read_structured_iff held_def)
    then show ?thesis
      using m by (simp add: same_mirror)
  qed
  then show ?thesis
    using g by (simp add: migrate_stuck)
qed

text \<open>The theorem on a page that holds the key \<^verbatim>\<open>auth_token\<close> and no record.\<close>

theorem legacy_migration_witness:
  "has_window legacy_only \<and> read_structured legacy_only = None \<and>
   read_accessor legacy_only = None \<and>
   ls_auth_token legacy_only = Some ''abc'' \<and> ''abc'' \<noteq> [] \<and>
   migratable (ls_auth_storage legacy_only) \<and>
   snd (getToken legacy_only) = Some (JStr ''abc'') \<and>
   read_structured (fst (getToken legacy_only)) = Some (fst (getToken legacy_only), JStr ''abc'')"
proof -
  have h: "has_window legacy_only" "read_structured legacy_only = None"
    "read_accessor legacy_only = None" "ls_auth_token legacy_only = Some ''abc''" "''abc'' \<noteq> []"
    by (simp_all add: legacy_only_def fresh_def read_structured_def read_accessor_def)
  have m: "migratable (ls_auth_storage legacy_only)"
    by (simp add: legacy_only_def fresh_def)
  show ?thesis
    using h m legacy_migration [OF h] by simp
qed

text \<open>
  Claim C4 as written fails for a record that is not valid JSON: \<^verbatim>\<open>getToken\<close> returns
  the value of \<^verbatim>\<open>auth_token\<close> and leaves the record as it was, so the next call finds no
  token in the record either.
\<close>

theorem legacy_migration_counterexample:
  "getToken corrupt_legacy = (corrupt_legacy, Some (JStr ''abc'')) \<and>
   ls_auth_storage corrupt_legacy = Some (Invalid ''{bad'') \<and>
   read_structured corrupt_legacy = None"
  by (simp add: corrupt_legacy_def fresh_def getToken_def read_structured_def read_accessor_def
      read_legacy_def migrate_def)

lemma clear_persisted_frame:
  "has_window (clear_persisted s) = has_window s"
  "pathname (clear_persisted s) = pathname s"
  "href_writes (clear_persisted s) = href_writes s"
  "ls_auth_token (clear_persisted s) = ls_auth_token s"
  "token (clear_persisted s) = token s"
  "user (clear_persisted s) = user s"
  "isAuthenticated (clear_persisted s) = isAuthenticated s"
  by (simp_all add: clear_persisted_def split: option.splits sum.splits)

lemma clear_persisted_record:
  "record_field ''token'' (ls_auth_storage (clear_persisted s)) \<in> {None, Some JNull}"
  "record_field ''user'' (ls_auth_storage (clear_persisted s)) \<in> {None, Some JNull}"
  by (auto simp add: clear_persisted_def record_field_def map_of_set_prop map_of_set_prop_other
      JSON_parse_Inr split: option.splits sum.splits)

lemma held_cleared: "v \<in> {None, Some JNull} \<Longrightarrow> held v = None"
  by (auto simp add: held_def)

lemma clearToken_frame: "href_writes (clearToken s) = href_writes s"
  by (cases "clearAuthToken s"; cases "the (clearAuthToken s)")
     (simp_all add: clearToken_def Let_def logout_def setUser_def setToken_def persist_write_def)

lemma clearToken_mirror: "has_window s \<Longrightarrow> ls_auth_token (clearToken s) = None"
  by (simp add: clearToken_def Let_def)

lemma clearToken_memory:
  assumes "has_window s" and "clearAuthToken s = Some c"
  shows "token (clearToken s) = None \<and> user (clearToken s) = None \<and>
         \<not> isAuthenticated (clearToken s)"
  using assms
  by (cases c)
     (simp_all add: clearToken_def Let_def logout_def setUser_def setToken_def persist_write_def)

text \<open>
  Claim C1. In a browser, on a page that is not the login view, a response rejected
  with status 401 tears the session down: the key \<^verbatim>\<open>auth_token\<close> is removed, the
  persisted record holds no token and no user, the in-memory session is cleared through
  the registered \<^verbatim>\<open>clearAuthToken\<close> (which the session store registers when it loads),
  and \<^verbatim>\<open>/auth/login\<close> is assigned to \<^verbatim>\<open>window.location.href\<close>. Any other response, and a
  401 on the login view, changes nothing.
\<close>

theorem unauthorized_teardown:
  "(r = Rejected (Some 401) \<and> has_window s \<and> \<not> startsWith (pathname s) ''/auth/login'' \<longrightarrow>
      ls_auth_token (on_response r s) = None \<and>
      held (record_field ''token'' (ls_auth_storage (on_response r s))) = None \<and>
      held (record_field ''user'' (ls_auth_storage (on_response r s))) = None \<and>
      (clearAuthToken s \<noteq> None \<longrightarrow>
         token (on_response r s) = None \<and> user (on_response r s) = None \<and>
         \<not> isAuthenticated (on_response r s)) \<and>
      href_writes (on_response r s) = href_writes s @ [''/auth/login'']) \<and>
   (\<not> (r = Rejected (Some 401) \<and> has_window s \<and> \<not> startsWith (pathname s) ''/auth/login'') \<longrightarrow>
      on_response r s = s)"
proof (intro conjI impI)
  assume a: "r = Rejected (Some 401) \<and> has_window s \<and> \<not> startsWith (pathname s) ''/auth/login''"
  then have o: "on_response r s =
      (clear_persisted (clearToken s))
        \<lparr>href_writes := href_writes (clear_persisted (clearToken s)) @ [''/auth/login'']\<rparr>"
    by simp
  show "ls_auth_token (on_response r s) = None"
    using a by (simp add: o clear_persisted_frame clearToken_mirror)
  show "held (record_field ''token'' (ls_auth_storage (on_response r s))) = None"
    by (simp add: o held_cleared [OF clear_persisted_record(1)])
  show "held (record_field ''user'' (ls_auth_storage (on_response r s))) = None"
    by (simp add: o held_cleared [OF clear_persisted_record(2)])
  show "href_writes (on_response r s) = href_writes s @ [''/auth/login'']"
    by (simp add: o clear_persisted_frame clearToken_frame)
  assume "clearAuthToken s \<noteq> None"
  then obtain c where "clearAuthToken s = Some c" by auto
  with a have "token (clearToken s) = None \<and> user (clearToken s) = None \<and>
      \<not> isAuthenticated (clearToken s)"
    by (simp add: clearToken_memory)
  then show "token (on_response r s) = None" "user (on_response r s) = None"
    "\<not> isAuthenticated (on_response r s)"
    by (simp_all add: o clear_persisted_frame)
next
  assume "\<not> (r = Rejected (Some 401) \<and> has_window s \<and>
             \<not> startsWith (pathname s) ''/auth/login'')"
  then show "on_response r s = s"
    by (cases r) auto
qed

text \<open>
  The theorem on the dashboard of a logged-in user, for a 401 and for a 500.
\<close>

theorem unauthorized_teardown_witness:
  "has_window logged_in \<and> \<not> startsWith (pathname logged_in) ''/auth/login'' \<and>
   clearAuthToken logged_in \<noteq> None \<and> token logged_in = Some ''abc'' \<and>
   ls_auth_token (on_response (Rejected (Some 401)) logged_in) = None \<and>
   token (on_response (Rejected (Some 401)) logged_in) = None \<and>
   user (on_response (Rejected (Some 401)) logged_in) = None \<and>
   href_writes (on_response (Rejected (Some 401)) logged_in) = [''/auth/login''] \<and>
   on_response (Rejected (Some 500)) logged_in = logged_in"
proof -
  have h: "has_window logged_in" "\<not> startsWith (pathname logged_in) ''/auth/login''"
    "clearAuthToken logged_in \<noteq> None" "token logged_in = Some ''abc''"
    "href_writes logged_in = []"
    by (simp_all add: logged_in_def registerAuthTokenAccessors_def setUser_def setToken_def
        persist_write_def fresh_def startsWith_def Let_def)
  have a: "ls_auth_token (on_response (Rejected (Some 401)) logged_in) = None \<and>
      token (on_response (Rejected (Some 401)) logged_in) = None \<and>
      user (on_response (Rejected (Some 401)) logged_in) = None \<and>
      href_writes (on_response (Rejected (Some 401)) logged_in) = [''/auth/login'']"
    using unauthorized_teardown [of "Rejected (Some 401)" logged_in] h
    by (simp del: on_response.simps)
  have b: "on_response (Rejected (Some 500)) logged_in = logged_in"
    using unauthorized_teardown [of "Rejected (Some 500)" logged_in]
    by (simp del: on_response.simps)
  show ?thesis
    using h a b by simp
qed

section \<open>Properties of the notification store\<close>

lemma take_append_take: "take n (xs @ take n ys) = take n (xs @ ys)"
  by (simp add: min_def)

lemma create_step:
  assumes "nwindow st"
    and "sorted (map (\<lambda>n. - timestamp n) (getNotifications st))"
    and "\<forall>n \<in> set (getNotifications st). timestamp n \<le> int (c_now c)"
  shows "getNotifications (fst (createNotification c st)) =
           take 50 (new_notification c # getNotifications st)"
proof -
  have "sorted (map (\<lambda>n. - timestamp n) (new_notification c # getNotifications st))"
    using assms(2,3) by (simp add: new_notification_def)
  then have "sort_key (\<lambda>n. - timestamp n) (new_notification c # getNotifications st) =
      new_notification c # getNotifications st"
    by (rule sort_key_id_if_sorted)
  then show ?thesis
    using assms(1)
    by (simp add: createNotification_def saveNotifications_def Let_def MAX_NOTIFICATIONS_def
        getNotifications_def)
qed

lemma nwindow_create: "nwindow (fst (createNotification c st)) = nwindow st"
  by (simp add: createNotification_def saveNotifications_def Let_def)

text \<open>
  With a clock that does not run backwards, the list after a run of creations is the
  newest fifty of the created entries followed by the stored ones.
\<close>

lemma create_all_sorted:
  assumes "nwindow st"
    and "sorted (map (\<lambda>n. - timestamp n) (getNotifications st))"
    and "\<forall>n \<in> set (getNotifications st). \<forall>c \<in> set cs. timestamp n \<le> int (c_now c)"
    and "sorted (map c_now cs)"
    and "length (getNotifications st) \<le> 50"
  shows "getNotifications (create_all cs st) =
           take 50 (rev (map new_notification cs) @ getNotifications st)"
  using assms
proof (induction cs arbitrary: st)
  case Nil
  then show ?case
    by simp
next
  case (Cons c cs)
  let ?st = "fst (createNotification c st)"
  let ?L = "getNotifications st"
  have step: "getNotifications ?st = take 50 (new_notification c # ?L)"
    using Cons.prems by (intro create_step) auto
  have w: "nwindow ?st"
    using Cons.prems(1) by (simp add: nwindow_create)
  have "sorted (map (\<lambda>n. - timestamp n) (new_notification c # ?L))"
    using Cons.prems(2,3) by (simp add: new_notification_def)
  then have s: "sorted (map (\<lambda>n. - timestamp n) (getNotifications ?st))"
    unfolding step take_map [symmetric] by (rule sorted_wrt_take)
  have b: "\<forall>n \<in> set (getNotifications ?st). \<forall>c' \<in> set cs. timestamp n \<le> int (c_now c')"
  proof (intro ballI)
    fix n c' assume n: "n \<in> set (getNotifications ?st)" and c': "c' \<in> set cs"
    from n have "n \<in> set (new_notification c # ?L)"
      unfolding step by (rule in_set_takeD)
    then show "timestamp n \<le> int (c_now c')"
      using Cons.prems(3,4) c' by (auto simp add: new_notification_def)
  qed
  have "getNotifications (create_all cs ?st) =
      take 50 (rev (map new_notification cs) @ getNotifications ?st)"
    using w s b Cons.prems(4) by (intro Cons.IH) (auto simp add: step)
  then show ?case
    by (simp add: step take_append_take del: take_Cons_numeral)
qed

lemma sixty_sorted: "sorted (map c_now sixty)"
  by (simp add: sixty_def comp_def numbered_def sorted_map sorted_wrt_iff_nth_less)

lemma take_Cons_take: "take j (y # take j ys) = take j (y # ys)"
  by (cases j) (simp_all add: min_def)

lemma take_insort_take:
  "take k (insort_key f x (take k ys)) = take k (insort_key f x ys)"
proof (induction ys arbitrary: k)
  case Nil
  then show ?case by simp
next
  case (Cons y ys)
  show ?case
  proof (cases k)
    case 0
    then show ?thesis by simp
  next
    case (Suc j)
    then show ?thesis
      using Cons.IH [of j] by (simp add: take_Cons_take)
  qed
qed

lemma take_foldr_insort_take:
  "take k (foldr (insort_key f) xs (take k ys)) = take k (foldr (insort_key f) xs ys)"
proof (induction xs)
  case Nil
  then show ?case by simp
next
  case (Cons x xs)
  have "take k (insort_key f x (foldr (insort_key f) xs (take k ys))) =
      take k (insort_key f x (take k (foldr (insort_key f) xs (take k ys))))"
    by (simp only: take_insort_take)
  also have "\<dots> = take k (insort_key f x (take k (foldr (insort_key f) xs ys)))"
    by (simp only: Cons.IH)
  also have "\<dots> = take k (insort_key f x (foldr (insort_key f) xs ys))"
    by (simp only: take_insort_take)
  finally show ?case by simp
qed

lemma create_step_any:
  assumes "nwindow st" and "sorted (map (\<lambda>n. - timestamp n) (getNotifications st))"
  shows "getNotifications (fst (createNotification c st)) =
           take 50 (insort_key (\<lambda>n. - timestamp n) (new_notification c) (getNotifications st))"
  using assms
  by (simp add: createNotification_def saveNotifications_def Let_def MAX_NOTIFICATIONS_def
      getNotifications_def sort_key_id_if_sorted)

text \<open>
  Whatever the clock does, the list after a run of creations is the first fifty of the
  stable sort, latest first, of the created entries put in front of the stored ones.
\<close>

lemma create_all_any:
  assumes "nwindow st" and "sorted (map (\<lambda>n. - timestamp n) (getNotifications st))"
    and "length (getNotifications st) \<le> 50"
  shows "getNotifications (create_all cs st) =
           take 50 (foldr (insort_key (\<lambda>n. - timestamp n)) (rev (map new_notification cs))
                      (getNotifications st))"
  using assms
proof (induction cs arbitrary: st)
  case Nil
  then show ?case by simp
next
  case (Cons c cs)
  let ?f = "\<lambda>n. - timestamp n"
  let ?st = "fst (createNotification c st)"
  let ?L = "getNotifications st"
  have step: "getNotifications ?st = take 50 (insort_key ?f (new_notification c) ?L)"
    using Cons.prems(1,2) by (rule create_step_any)
  have w: "nwindow ?st"
    using Cons.prems(1) by (simp add: createNotification_def saveNotifications_def Let_def)
  have "sorted (map ?f (insort_key ?f (new_notification c) ?L))"
    using Cons.prems(2) by (simp add: sorted_insort_key)
  then have s: "sorted (map ?f (getNotifications ?st))"
    unfolding step take_map [symmetric] by (rule sorted_wrt_take)
  have l: "length (getNotifications ?st) \<le> 50"
    by (simp add: step)
  have "getNotifications (create_all cs ?st) =
      take 50 (foldr (insort_key ?f) (rev (map new_notification cs)) (getNotifications ?st))"
    using w s l by (rule Cons.IH)
  then show ?case
    by (simp add: step take_foldr_insort_take)
qed


text \<open>
  Claim C5. Sixty notifications are created one after the other in an empty store. Then
  \<^verbatim>\<open>getNotifications\<close> returns exactly fifty entries, the first fifty of the created
  entries sorted by timestamp, latest first (of two with the same timestamp, the one
  created later first). When the clock does not run backwards between the creations,
  these are the fifty created last, the ten created first are gone, and after each
  creation the entry just created is at the head of the list.
\<close>

theorem bounded_log:
  assumes "length cs = 60"
  shows "getNotifications (create_all cs empty_store) =
           take 50 (sort_key (\<lambda>n. - timestamp n) (rev (map new_notification cs))) \<and>
         length (getNotifications (create_all cs empty_store)) = 50 \<and>
         (sorted (map c_now cs) \<longrightarrow>
            getNotifications (create_all cs empty_store) = rev (map new_notification (drop 10 cs)) \<and>
            (\<forall>k<60. hd (getNotifications (create_all (take (Suc k) cs) empty_store)) =
                      new_notification (cs ! k)))"
proof -
  have e: "nwindow empty_store" "getNotifications empty_store = []"
    by (simp_all add: empty_store_def getNotifications_def)
  have g: "getNotifications (create_all cs empty_store) =
      take 50 (sort_key (\<lambda>n. - timestamp n) (rev (map new_notification cs)))"
    using create_all_any [of empty_store cs] e by (simp add: sort_key_def)
  then have n: "length (getNotifications (create_all cs empty_store)) = 50"
    using assms by simp
  have m: "getNotifications (create_all cs empty_store) = rev (map new_notification (drop 10 cs)) \<and>
      (\<forall>k<60. hd (getNotifications (create_all (take (Suc k) cs) empty_store)) =
                new_notification (cs ! k))"
    if s: "sorted (map c_now cs)"
  proof (intro conjI allI impI)
    have all: "getNotifications (create_all ds empty_store) =
        take 50 (rev (map new_notification ds))"
      if "sorted (map c_now ds)" for ds
      using create_all_sorted [of empty_store ds] that e by simp
    show "getNotifications (create_all cs empty_store) = rev (map new_notification (drop 10 cs))"
      using all [OF s] assms by (simp add: take_rev drop_map)
    fix k :: nat
    assume k: "k < 60"
    have "sorted (map c_now (take (Suc k) cs))"
      using s unfolding take_map [symmetric] by (rule sorted_wrt_take)
    then have p: "getNotifications (create_all (take (Suc k) cs) empty_store) =
        take 50 (rev (map new_notification (take (Suc k) cs)))"
      by (rule all)
    have "take (Suc k) cs = take k cs @ [cs ! k]"
      using assms k by (simp add: take_Suc_conv_app_nth)
    then show "hd (getNotifications (create_all (take (Suc k) cs) empty_store)) =
        new_notification (cs ! k)"
      unfolding p by simp
  qed
  from g n m show ?thesis by blast
qed

text \<open>The theorem on sixty creations a millisecond apart, at the last of them.\<close>

theorem bounded_log_witness:
  "length sixty = 60 \<and> sorted (map c_now sixty) \<and> (59::nat) < 60 \<and>
   length (getNotifications (create_all sixty empty_store)) = 50 \<and>
   getNotifications (create_all sixty empty_store) = rev (map new_notification (drop 10 sixty)) \<and>
   hd (getNotifications (create_all sixty empty_store)) = new_notification (numbered 59)"
proof -
  have l: "length sixty = 60"
    by (simp add: sixty_def)
  have n: "sixty ! 59 = numbered 59"
    by (simp add: sixty_def del: upt_Suc)
  have t: "take (Suc 59) sixty = sixty"
    using l by simp
  have k: "(59::nat) < 60"
    by simp
  note b = bounded_log [OF l]
  from b have b2: "length (getNotifications (create_all sixty empty_store)) = 50"
    by (rule conjunct1 [OF conjunct2])
  from b sixty_sorted have b1: "getNotifications (create_all sixty empty_store) =
      rev (map new_notification (drop 10 sixty))"
    by blast
  from b sixty_sorted k have "hd (getNotifications (create_all (take (Suc 59) sixty) empty_store)) =
      new_notification (sixty ! 59)"
    by blast
  then have b3: "hd (getNotifications (create_all sixty empty_store)) =
      new_notification (numbered 59)"
    unfolding t n .
  show ?thesis
    by (intro conjI l sixty_sorted k b2 b1 b3)
qed

lemma show_nat_no_dash: "CHR ''-'' \<notin> set (show_nat n)"
proof (induction n rule: show_nat.induct)
  case (1 n)
  have d: "char_of (48 + k) \<noteq> CHR ''-''" if "k < 10" for k :: nat
    using that by (simp add: char_of_eq_iff take_bit_eq_mod)
  show ?case
  proof (cases "n < 10")
    case True
    then show ?thesis
      using d [of n] by (subst show_nat.simps) auto
  next
    case False
    then show ?thesis
      using "1.IH" d [of "n mod 10"] by (subst show_nat.simps) auto
  qed
qed

lemma show_nat_nonempty: "show_nat n \<noteq> []"
  by (subst show_nat.simps) simp

lemma digit_inj:
  "a < 10 \<Longrightarrow> b < 10 \<Longrightarrow> char_of (48 + a) = (char_of (48 + b) :: char) \<Longrightarrow> a = (b::nat)"
  by (simp add: mod_if split: if_splits)

text \<open>Different numbers print differently.\<close>

lemma show_nat_inj: "show_nat n = show_nat m \<Longrightarrow> n = m"
proof (induction n arbitrary: m rule: show_nat.induct)
  case (1 n)
  show ?case
  proof (cases "n < 10")
    case True
    have m: "m < 10"
    proof (rule ccontr)
      assume "\<not> m < 10"
      then have "length (show_nat m) \<ge> 2"
        using show_nat_nonempty [of "m div 10"]
        by (subst show_nat.simps) (simp add: Suc_le_eq)
      moreover have "length (show_nat n) = 1"
        using True by (subst show_nat.simps) simp
      ultimately show False using "1.prems" by simp
    qed
    have "show_nat n = [char_of (48 + n)]" "show_nat m = [char_of (48 + m)]"
      using True m by (subst show_nat.simps, simp)+
    with "1.prems" show ?thesis
      using digit_inj [OF True m] by simp
  next
    case False
    have m: "\<not> m < 10"
    proof
      assume "m < 10"
      then have "length (show_nat m) = 1"
        by (subst show_nat.simps) simp
      moreover have "length (show_nat n) \<ge> 2"
        using False show_nat_nonempty [of "n div 10"]
        by (subst show_nat.simps) (simp add: Suc_le_eq)
      ultimately show False using "1.prems" by simp
    qed
    have n': "show_nat n = show_nat (n div 10) @ [char_of (48 + n mod 10)]"
      using False by (subst show_nat.simps) simp
    have m': "show_nat m = show_nat (m div 10) @ [char_of (48 + m mod 10)]"
      using m by (subst show_nat.simps) simp
    from "1.prems" n' m' have a: "show_nat (n div 10) = show_nat (m div 10)"
      and b: "char_of (48 + n mod 10) = (char_of (48 + m mod 10) :: char)"
      by simp_all
    from a have "n div 10 = m div 10"
      using False by (rule "1.IH" [rotated])
    moreover from b have "n mod 10 = m mod 10"
      by (intro digit_inj) simp_all
    ultimately have "n div 10 * 10 + n mod 10 = m div 10 * 10 + m mod 10"
      by simp
    then show ?thesis
      by (simp only: div_mult_mod_eq)
  qed
qed

lemma split_at_first:
  "x \<notin> set xs \<Longrightarrow> x \<notin> set xs' \<Longrightarrow> xs @ x # ys = xs' @ x # ys' \<Longrightarrow> xs = xs' \<and> ys = ys'"
proof (induction xs arbitrary: xs')
  case Nil
  then show ?case by (cases xs') auto
next
  case (Cons a xs)
  then show ?case by (cases xs') auto
qed

text \<open>
  Claim C7, as the code has it. Two generated ids are equal exactly when the two clock
  readings are the same millisecond and the nine characters kept from the two random
  texts are the same; so two creations get distinct ids whenever their clock readings
  differ or those characters differ.
\<close>

theorem id_collision:
  "generateNotificationId n1 r1 = generateNotificationId n2 r2 \<longleftrightarrow>
     n1 = n2 \<and> take 9 (drop 2 r1) = take 9 (drop 2 r2)"
proof
  assume "generateNotificationId n1 r1 = generateNotificationId n2 r2"
  then have "show_nat n1 @ CHR ''-'' # take 9 (drop 2 r1) =
      show_nat n2 @ CHR ''-'' # take 9 (drop 2 r2)"
    by (simp add: generateNotificationId_def)
  then have "show_nat n1 = show_nat n2 \<and> take 9 (drop 2 r1) = take 9 (drop 2 r2)"
    using show_nat_no_dash by (intro split_at_first)
  then show "n1 = n2 \<and> take 9 (drop 2 r1) = take 9 (drop 2 r2)"
    using show_nat_inj by blast
next
  assume "n1 = n2 \<and> take 9 (drop 2 r1) = take 9 (drop 2 r2)"
  then show "generateNotificationId n1 r1 = generateNotificationId n2 r2"
    by (simp add: generateNotificationId_def)
qed

text \<open>
  Claim C7 as written fails: two different creations in the same millisecond for which
  \<^verbatim>\<open>Math.random()\<close> returns the same number get the same id.
\<close>

theorem id_collision_counterexample:
  "first_alert \<noteq> second_alert \<and>
   nid (snd (createNotification first_alert empty_store)) =
   nid (snd (createNotification second_alert (fst (createNotification first_alert empty_store))))"
  by (simp add: first_alert_def second_alert_def createNotification_def new_notification_def
      Let_def)

section \<open>Properties of the event bus\<close>

lemma call_handlers_eq:
  "call_handlers hs e d b =
     b\<lparr>received := received b @ map (\<lambda>h. (h, e, d)) hs, loads := loads b + length hs\<rparr>"
  by (induction hs arbitrary: b) (simp_all add: handleGraphUpdate_def loadAllGraphData_def)

lemma dispatchEvent_received:
  "received (dispatchEvent name d b) =
     received b @ map (\<lambda>h. (h, next_event b, d)) (map snd (filter (\<lambda>l. fst l = name) (listeners b)))"
  by (simp add: dispatchEvent_def call_handlers_eq)

lemma dispatchEvent_next: "next_event (dispatchEvent name d b) = Suc (next_event b)"
  by (simp add: dispatchEvent_def call_handlers_eq)

lemma act_next: "next_event b \<le> next_event (act a b)"
  by (cases a)
     (simp_all add: addEventListener_def removeEventListener_def loadAllGraphData_def
        dispatchEvent_next)

lemma act_numbered_ok: "numbered_ok b \<Longrightarrow> numbered_ok (act a b)"
  by (cases a)
     (auto simp add: numbered_ok_def addEventListener_def removeEventListener_def
        loadAllGraphData_def dispatchEvent_next dispatchEvent_received less_Suc_eq)

lemma act_old:
  "e < next_event b \<Longrightarrow> (h, e, d) \<in> set (received (act a b)) \<longleftrightarrow> (h, e, d) \<in> set (received b)"
  by (cases a)
     (auto simp add: addEventListener_def removeEventListener_def loadAllGraphData_def
        dispatchEvent_received)

lemma acts_old:
  "e < next_event b \<Longrightarrow> (h, e, d) \<in> set (received (acts as b)) \<longleftrightarrow> (h, e, d) \<in> set (received b)"
proof (induction as arbitrary: b)
  case Nil
  then show ?case by simp
next
  case (Cons a as)
  have "e < next_event (act a b)"
    using Cons.prems act_next [of b a] by simp
  then show ?case
    using Cons.IH [of "act a b"] Cons.prems by (simp add: act_old)
qed

lemma acts_numbered_ok: "numbered_ok b \<Longrightarrow> numbered_ok (acts as b)"
  by (induction as arbitrary: b) (simp_all add: act_numbered_ok)

lemma bus0_ok: "numbered_ok bus0"
  by (simp add: numbered_ok_def bus0_def)

text \<open>
  Claim C8. Take the page after any run of mounts, unmounts and finished ingestions, and
  dispatch \<^verbatim>\<open>graph-data-updated\<close>. A handler registered at that moment has received this
  event when the dispatch returns. A handler not registered at that moment does not
  receive this event, whatever happens afterwards: mounting later does not bring it.
\<close>

theorem event_non_persistence:
  "((''graph-data-updated'', h) \<in> set (listeners (acts pre bus0)) \<longrightarrow>
      (h, next_event (acts pre bus0), d)
        \<in> set (received (act (IngestionDone d) (acts pre bus0)))) \<and>
   ((''graph-data-updated'', h) \<notin> set (listeners (acts pre bus0)) \<longrightarrow>
      (\<forall>d'. (h, next_event (acts pre bus0), d')
        \<notin> set (received (acts post (act (IngestionDone d) (acts pre bus0))))))"
proof (intro conjI impI allI)
  let ?b = "acts pre bus0"
  assume "(''graph-data-updated'', h) \<in> set (listeners ?b)"
  then show "(h, next_event ?b, d) \<in> set (received (act (IngestionDone d) ?b))"
    by (force simp add: dispatchEvent_received)
next
  let ?b = "acts pre bus0"
  fix d'
  assume n: "(''graph-data-updated'', h) \<notin> set (listeners ?b)"
  have ok: "numbered_ok ?b"
    by (simp add: acts_numbered_ok bus0_ok)
  then have "(h, next_event ?b, d') \<notin> set (received ?b)"
    by (auto simp add: numbered_ok_def)
  with n have "(h, next_event ?b, d') \<notin> set (received (act (IngestionDone d) ?b))"
    by (auto simp add: dispatchEvent_received)
  moreover have "next_event ?b < next_event (act (IngestionDone d) ?b)"
    by (simp add: dispatchEvent_next)
  ultimately show "(h, next_event ?b, d') \<notin> set (received (acts post (act (IngestionDone d) ?b)))"
    by (simp add: acts_old)
qed

text \<open>
  The theorem with the graph page of mount 1 open during the dispatch and that of
  mount 2 opened after it.
\<close>

theorem event_non_persistence_witness:
  "(''graph-data-updated'', 1) \<in> set (listeners (acts [MountGraphPage 1] bus0)) \<and>
   (1, 0, counts) \<in> set (received (act (IngestionDone counts) (acts [MountGraphPage 1] bus0))) \<and>
   (''graph-data-updated'', 2) \<notin> set (listeners (acts [MountGraphPage 1] bus0)) \<and>
   (2, 0, counts) \<notin> set (received (acts [MountGraphPage 2, UnmountGraphPage 1]
                                     (act (IngestionDone counts) (acts [MountGraphPage 1] bus0))))"
proof -
  let ?b = "acts [MountGraphPage 1] bus0"
  have h1: "(''graph-data-updated'', 1) \<in> set (listeners ?b)"
    and h2: "(''graph-data-updated'', 2) \<notin> set (listeners ?b)"
    and n: "next_event ?b = 0"
    by (simp_all add: bus0_def addEventListener_def loadAllGraphData_def)
  have c1: "(1, 0, counts) \<in> set (received (act (IngestionDone counts) ?b))"
    using event_non_persistence [of 1 "[MountGraphPage 1]" counts] h1 unfolding n by blast
  have c2: "(2, 0, counts) \<notin> set (received (acts [MountGraphPage 2, UnmountGraphPage 1]
                                     (act (IngestionDone counts) ?b)))"
    using event_non_persistence [of 2 "[MountGraphPage 1]" counts "[MountGraphPage 2, UnmountGraphPage 1]"] h2
    unfolding n by blast
  show ?thesis
    by (intro conjI h1 h2 c1 c2)
qed

section \<open>Properties of the route guard\<close>

lemma commit_keeps:
  "hasCheckedAuth (commit tok auth g) = hasCheckedAuth g"
  "pushes (commit tok auth g) = pushes g"
  by (simp_all add: commit_def auth_effect_def Let_def split: option.splits)

lemma commit_timer:
  "timer (commit tok auth g) = Some x \<Longrightarrow> timer g = None \<Longrightarrow> isClient g"
  by (auto simp add: commit_def auth_effect_def Let_def split: option.splits if_splits)

lemma commit_timer_cases:
  "timer (commit tok auth g) = None \<or> timer (commit tok auth g) = timer g \<or>
   timer (commit tok auth g) = Some (tok, auth)"
  by (simp add: commit_def auth_effect_def Let_def split: option.splits)

lemma check_holds_step:
  assumes "check_holds s0 p" and "calls_of [e] = []"
  shows "check_holds s0 (page_step e p)"
proof (cases p)
  case (Pair s g)
  with assms(1) have s: "s = s0"
    and t: "case timer g of None \<Rightarrow> True | Some (t, a) \<Rightarrow> t = token s0 \<and> a = isAuthenticated s0"
    and q: "truthy_str (token s0) \<Longrightarrow> pushes g = []"
    by (simp_all add: check_holds_def split: if_splits)
  show ?thesis
  proof (cases e)
    case Renders
    show ?thesis
      using commit_timer_cases [of "token s0" "isAuthenticated s0" g] t q
      by (auto simp add: check_holds_def Pair Renders s commit_keeps split: option.splits)
  next
    case TimerFired
    show ?thesis
      using t q
      by (auto simp add: check_holds_def Pair TimerFired s checkAuth_def Let_def
          split: option.splits)
  next
    case Unmounted
    show ?thesis
      using q by (simp add: check_holds_def Pair Unmounted s)
  next
    case (Called c)
    with assms(2) show ?thesis by simp
  qed
qed

lemma check_holds_run:
  "check_holds s0 p \<Longrightarrow> calls_of es = [] \<Longrightarrow> check_holds s0 (page_run es p)"
proof (induction es arbitrary: p)
  case Nil
  then show ?case by simp
next
  case (Cons e es)
  from Cons.prems(2) have e: "calls_of [e] = []" and r: "calls_of es = []"
    by (cases e; simp)+
  show ?case
    using Cons.IH [OF check_holds_step [OF Cons.prems(1) e] r] by simp
qed

lemma store_run: "fst (page_run es p) = calls (calls_of es) (fst p)"
proof (induction es arbitrary: p)
  case Nil
  then show ?case by simp
next
  case (Cons e es)
  obtain s g where p: "p = (s, g)" by (cases p)
  show ?case
    by (cases e) (simp_all add: p Cons.IH)
qed

lemma token_of_token_json: "token_of_json (token_json t) = t"
  by (cases t) (simp_all add: token_json_def)

lemma user_of_user_json: "user_of_json (user_json u) = u"
proof (cases u)
  case None
  then show ?thesis
    by (simp add: user_json_def user_of_json_def)
next
  case (Some r)
  then show ?thesis
    by (cases "clearance_level r") (simp_all add: user_json_def user_of_json_def clearance_of_def)
qed

text \<open>A page loaded on a record that the store wrote holds the session of that record.\<close>

lemma load_page_record:
  assumes "has_window s" and "ls_auth_storage s = Some (Valid (persisted_record tk u))"
  shows "token (load_page s) = tk \<and> user (load_page s) = u"
proof -
  have "persisted_state (persisted_record tk u) =
      Some (JObj [(''token'', token_json tk), (''user'', user_json u)])"
    by (simp add: persisted_state_def persisted_record_def)
  then show ?thesis
    using assms
    by (simp add: load_page_def hydrate_def onRehydrate_def merge_persisted_def
        registerAuthTokenAccessors_def Let_def token_of_token_json user_of_user_json)
qed

text \<open>
  Claim C9. While the guard is hydrating (\<^verbatim>\<open>isClient\<close> set, \<^verbatim>\<open>hasCheckedAuth\<close> not) it
  renders the loading spinner. As long as \<^verbatim>\<open>hasCheckedAuth\<close> is not set, the only step
  that sets it or calls \<^verbatim>\<open>router.push\<close> is the firing of a pending
  \<^verbatim>\<open>setTimeout(checkAuth, 0)\<close>, and a timer is only ever scheduled by the effect of a
  commit that follows the mount commit (\<^verbatim>\<open>isClient\<close> is set by then). The check runs
  after the rehydration of the store: on a loaded page the store holds the session of
  the persisted record before the guard renders; the guard never changes the store,
  which is the rehydrated store after the calls made on it; and as long as no call sets
  or clears the token, every pending check holds the rehydrated token, and the page of a
  stored token is never sent to the login view.
\<close>

theorem guard_hydrating:
  "(hydrating g \<longrightarrow> render g = LoadingSpinner) \<and>
   (\<not> hasCheckedAuth g \<and>
      (hasCheckedAuth (guard_step e g) \<or> pushes (guard_step e g) \<noteq> pushes g) \<longrightarrow>
      (\<exists>legacy. e = TimerFires legacy) \<and> timer g \<noteq> None) \<and>
   (timer g = None \<and> timer (guard_step e g) \<noteq> None \<longrightarrow>
      (\<exists>tok auth. e = Commit tok auth) \<and> isClient g) \<and>
   (has_window s \<and> ls_auth_storage s = Some (Valid (persisted_record tk u)) \<longrightarrow>
      token (load_page s) = tk \<and> user (load_page s) = u) \<and>
   fst (page_run es (load_page s, guard0)) = calls (calls_of es) (load_page s) \<and>
   (calls_of es = [] \<longrightarrow> check_holds (load_page s) (page_run es (load_page s, guard0)))"
proof (intro conjI impI)
  assume "hydrating g"
  then show "render g = LoadingSpinner"
    by (simp add: hydrating_def render_def)
next
  assume a: "\<not> hasCheckedAuth g \<and>
    (hasCheckedAuth (guard_step e g) \<or> pushes (guard_step e g) \<noteq> pushes g)"
  then show "\<exists>legacy. e = TimerFires legacy"
    by (cases e) (auto simp add: commit_keeps)
  from a show "timer g \<noteq> None"
    by (cases e) (auto simp add: commit_keeps split: option.splits)
next
  assume a: "timer g = None \<and> timer (guard_step e g) \<noteq> None"
  then show "\<exists>tok auth. e = Commit tok auth"
    by (cases e) auto
  from a show "isClient g"
    by (cases e) (auto dest: commit_timer)
next
  assume "has_window s \<and> ls_auth_storage s = Some (Valid (persisted_record tk u))"
  then show "token (load_page s) = tk" "user (load_page s) = u"
    using load_page_record [of s tk u] by simp_all
next
  show "fst (page_run es (load_page s, guard0)) = calls (calls_of es) (load_page s)"
    by (simp add: store_run)
next
  assume "calls_of es = []"
  moreover have "check_holds (load_page s) (load_page s, guard0)"
    by (simp add: check_holds_def guard0_def)
  ultimately show "check_holds (load_page s) (page_run es (load_page s, guard0))"
    by (intro check_holds_run)
qed

text \<open>
  The theorem on the guard that waits for its check, on the guard that has just
  mounted, and on the page loaded in the browser of a logged-in user, up to the firing
  of the first check.
\<close>

theorem guard_hydrating_witness:
  "hydrating waiting \<and> render waiting = LoadingSpinner \<and>
   \<not> hasCheckedAuth waiting \<and> hasCheckedAuth (guard_step (TimerFires None) waiting) \<and>
   timer waiting \<noteq> None \<and>
   timer mounted = None \<and> timer (guard_step (Commit (Some ''abc'') False) mounted) \<noteq> None \<and>
   isClient mounted \<and>
   has_window returning \<and>
   ls_auth_storage returning = Some (Valid (persisted_record (Some ''abc'') (Some alice))) \<and>
   token (load_page returning) = Some ''abc'' \<and>
   calls_of [Renders, Renders, TimerFired] = [] \<and>
   check_holds (load_page returning)
     (page_run [Renders, Renders, TimerFired] (load_page returning, guard0)) \<and>
   pushes (snd (page_run [Renders, Renders, TimerFired] (load_page returning, guard0))) = []"
proof -
  let ?es = "[Renders, Renders, TimerFired]"
  have w: "hydrating waiting" "\<not> hasCheckedAuth waiting"
    "hasCheckedAuth (guard_step (TimerFires None) waiting)"
    by (simp_all add: waiting_def guard0_def commit_def auth_effect_def checkAuth_def
        hydrating_def Let_def)
  have m: "timer mounted = None" "timer (guard_step (Commit (Some ''abc'') False) mounted) \<noteq> None"
    by (simp_all add: mounted_def guard0_def commit_def auth_effect_def Let_def)
  have r: "has_window returning"
    "ls_auth_storage returning = Some (Valid (persisted_record (Some ''abc'') (Some alice)))"
    by (simp_all add: returning_def fresh_def)
  have n: "calls_of ?es = []"
    by simp
  note th1 = guard_hydrating [of waiting "TimerFires None"]
  note th2 = guard_hydrating [of mounted "Commit (Some ''abc'') False" returning
      "Some ''abc''" "Some alice" ?es]
  have c1: "render waiting = LoadingSpinner"
    using th1 w(1) by blast
  have c2: "timer waiting \<noteq> None"
    using th1 w(2,3) by blast
  have c3: "isClient mounted"
    using th2 m by blast
  have c4: "token (load_page returning) = Some ''abc''"
    using th2 r by blast
  have c5: "check_holds (load_page returning) (page_run ?es (load_page returning, guard0))"
    using th2 n by blast
  then have c6: "pushes (snd (page_run ?es (load_page returning, guard0))) = []"
    using c4 by (simp add: check_holds_def)
  show ?thesis
    by (intro conjI w c1 c2 m c3 r c4 n c5 c6)
qed

end
